theory Spec2Isabelle
  imports Main "HOL-Library.Word"
begin

section \<open>JavaScript strings\<close>

text \<open>
  A JavaScript string is a sequence of 16-bit code units. \<open>js\<close> writes a string literal
  of ASCII characters as its code units.
\<close>

type_synonym code_unit = "16 word"
type_synonym jsstring = "code_unit list"

definition js :: "string \<Rightarrow> jsstring" where
  "js s = map (\<lambda>c. word_of_nat (of_char c)) s"

text \<open>
  \<open>String.prototype.toUpperCase\<close>. On a string of ASCII code units it maps \<open>a..z\<close> to
  \<open>A..Z\<close> and leaves everything else alone. On any other string the result is given by the
  Unicode tables of the host, which are not part of the program: they are the parameter
  \<open>up\<close> of every definition below, and every theorem holds for all of them.
\<close>

definition ascii_upper :: "code_unit \<Rightarrow> code_unit" where
  "ascii_upper c = (if 97 \<le> c \<and> c \<le> 122 then c - 32 else c)"

definition toUpperCase :: "(jsstring \<Rightarrow> jsstring) \<Rightarrow> jsstring \<Rightarrow> jsstring" where
  "toUpperCase up s = (if list_all (\<lambda>c. c < 128) s then map ascii_upper s else up s)"

text \<open>
  The abstract operation \<open>Canonicalize\<close> of the regular-expression semantics for a
  pattern with flag \<open>i\<close> and without flag \<open>u\<close>: the code unit is upper-cased as a
  one-unit string; the result is kept when it is a single code unit, unless it would
  turn a non-ASCII code unit into an ASCII one.
\<close>

definition Canonicalize :: "(jsstring \<Rightarrow> jsstring) \<Rightarrow> code_unit \<Rightarrow> code_unit" where
  "Canonicalize up ch =
     (case toUpperCase up [ch] of
        [cu] \<Rightarrow> if 128 \<le> ch \<and> cu < 128 then ch else cu
      | _ \<Rightarrow> ch)"

section \<open>The match rule and the rewrite engine\<close>

definition TEXT_TO_FIND :: jsstring where
  "TEXT_TO_FIND = js ''Gulf of America''"

definition TEXT_TO_REPLACE_WITH :: jsstring where
  "TEXT_TO_REPLACE_WITH = js ''Gulf of Mexico''"

text \<open>
  \<open>TEXT_TO_FIND.replace(/[.*+?^${}()|[\]\\]/g, '\\$&')\<close> puts a backslash (code unit 92)
  before each of the fourteen syntax characters of the pattern grammar.
\<close>

definition syntax_characters :: jsstring where
  "syntax_characters = js ''.*+?^${}()|[]'' @ [92]"

definition escapeRegExp :: "jsstring \<Rightarrow> jsstring" where
  "escapeRegExp s = concat (map (\<lambda>c. if c \<in> set syntax_characters then [92, c] else [c]) s)"

text \<open>
  \<open>new RegExp(source, 'gi')\<close> on a source produced by \<open>escapeRegExp\<close>: the pattern is a
  sequence of literal code units, where a backslash followed by a code unit is an
  identity escape that stands for that code unit.
\<close>

fun pattern_atoms :: "jsstring \<Rightarrow> jsstring" where
  "pattern_atoms [] = []"
| "pattern_atoms [c] = [c]"
| "pattern_atoms (c # e # cs) =
     (if c = 92 then e # pattern_atoms cs else c # pattern_atoms (e # cs))"

definition SEARCH_REGEX :: jsstring where
  "SEARCH_REGEX = pattern_atoms (escapeRegExp TEXT_TO_FIND)"

text \<open>
  Matching a sequence of literals at the start of a string under flag \<open>i\<close>: code unit by
  code unit, two code units match when they canonicalize to the same one.
\<close>

fun matchesAt :: "(jsstring \<Rightarrow> jsstring) \<Rightarrow> jsstring \<Rightarrow> jsstring \<Rightarrow> bool" where
  "matchesAt up [] s = True"
| "matchesAt up (p # ps) [] = False"
| "matchesAt up (p # ps) (c # cs) =
     (Canonicalize up p = Canonicalize up c \<and> matchesAt up ps cs)"

text \<open>
  \<open>String.prototype.replace\<close> with a global pattern of literals and a replacement string
  without \<open>$\<close>: scanning from the left, the leftmost match is replaced and the scan goes
  on behind it; a code unit where no match starts is copied. The pattern of this program
  is not empty; for an empty one the function copies its input.
\<close>

function replace_gi ::
  "(jsstring \<Rightarrow> jsstring) \<Rightarrow> jsstring \<Rightarrow> jsstring \<Rightarrow> jsstring \<Rightarrow> jsstring" where
  "replace_gi up pat rep [] = []"
| "replace_gi up pat rep (c # cs) =
     (if pat \<noteq> [] \<and> matchesAt up pat (c # cs)
      then rep @ replace_gi up pat rep (drop (length pat) (c # cs))
      else c # replace_gi up pat rep cs)"
  by pat_completeness auto
termination
  by (relation "measure (\<lambda>(up, pat, rep, s). length s)") (auto simp: neq_Nil_conv)

text \<open>The rewrite engine: \<open>originalValue.replace(SEARCH_REGEX, TEXT_TO_REPLACE_WITH)\<close>.\<close>

definition rewrite :: "(jsstring \<Rightarrow> jsstring) \<Rightarrow> jsstring \<Rightarrow> jsstring" where
  "rewrite up originalValue = replace_gi up SEARCH_REGEX TEXT_TO_REPLACE_WITH originalValue"

subsection \<open>Occurrences of the phrase, as the specification words them\<close>

text \<open>
  Two strings are the same up to the case of their ASCII letters; a string contains the
  phrase when one of its substrings is the phrase up to case.
\<close>

definition same_ignoring_case :: "jsstring \<Rightarrow> jsstring \<Rightarrow> bool" where
  "same_ignoring_case a b = (map ascii_upper a = map ascii_upper b)"

fun contains_phrase :: "jsstring \<Rightarrow> bool" where
  "contains_phrase [] = False"
| "contains_phrase (c # cs) =
     (same_ignoring_case (take (length TEXT_TO_FIND) (c # cs)) TEXT_TO_FIND \<or> contains_phrase cs)"

text \<open>
  The letter G occurs in the phrase and in the replacement at the first position only.
  A pattern without G cannot start to match where the string has a G; \<open>gfree\<close> says
  that no code unit of a string matches G.
\<close>

definition gfree :: "(jsstring \<Rightarrow> jsstring) \<Rightarrow> jsstring \<Rightarrow> bool" where
  "gfree up q = list_all (\<lambda>x. Canonicalize up x \<noteq> Canonicalize up 71) q"

section \<open>The document\<close>

text \<open>
  The live document is a store of node objects. A reference is a number; every reference
  denotes a node, and \<open>null\<close> is \<open>None\<close>. A node carries the properties the program
  reads: \<open>nodeType\<close>, \<open>tagName\<close>, \<open>isContentEditable\<close>, \<open>nodeValue\<close> (\<open>null\<close> on elements,
  documents and fragments), \<open>parentNode\<close> and \<open>childNodes\<close>. Nothing forces the links of a
  store to form a tree: a walk along them may go on forever, so the walks below are
  partial functions, with \<open>None\<close> for a walk that does not return.

  The state also records every assignment to a \<open>nodeValue\<close>, in order, in \<open>writes\<close>: the
  host turns each of them into a character-data change record.
\<close>

type_synonym ref = nat

datatype node_type =
  ELEMENT_NODE | TEXT_NODE | COMMENT_NODE | DOCUMENT_NODE | DOCUMENT_FRAGMENT_NODE

record node =
  nodeType :: node_type
  tagName :: jsstring
  isContentEditable :: bool
  nodeValue :: "jsstring option"
  parentNode :: "ref option"
  childNodes :: "ref list"

record dom =
  nodes :: "ref \<Rightarrow> node"
  writes :: "ref list"

text \<open>
  A statement returns with the new state, or throws with the state it has reached.
\<close>

datatype error = TypeError

datatype outcome = Normal dom | Fault error dom

fun dom_of :: "outcome \<Rightarrow> dom" where
  "dom_of (Normal d) = d"
| "dom_of (Fault e d) = d"

definition EXCLUDED_TAGS :: "jsstring list" where
  "EXCLUDED_TAGS = map js [''SCRIPT'', ''STYLE'', ''NOSCRIPT'', ''TEXTAREA'', ''INPUT'',
     ''IFRAME'', ''CANVAS'', ''CODE'', ''SVG'', ''MATH'']"

subsection \<open>The eligibility filter\<close>

text \<open>The \<open>while\<close> loop of \<open>shouldSkipNode\<close>, from the value of \<open>currentElement\<close>.\<close>

partial_function (option) shouldSkipNode_loop ::
  "(jsstring \<Rightarrow> jsstring) \<Rightarrow> dom \<Rightarrow> ref option \<Rightarrow> bool option" where
  "shouldSkipNode_loop up d currentElement =
     (case currentElement of
        None \<Rightarrow> Some False
      | Some e \<Rightarrow>
          if nodeType (nodes d e) = ELEMENT_NODE then
            (if toUpperCase up (tagName (nodes d e)) \<in> set EXCLUDED_TAGS then Some True
             else if isContentEditable (nodes d e) then Some True
             else shouldSkipNode_loop up d (parentNode (nodes d e)))
          else Some False)"

declare shouldSkipNode_loop.simps [code]

definition shouldSkipNode :: "(jsstring \<Rightarrow> jsstring) \<Rightarrow> ref \<Rightarrow> dom \<Rightarrow> bool option" where
  "shouldSkipNode up textNode d = shouldSkipNode_loop up d (parentNode (nodes d textNode))"

subsection \<open>Rewriting one node\<close>

text \<open>The assignment \<open>textNode.nodeValue = newValue\<close>.\<close>

definition set_nodeValue :: "ref \<Rightarrow> jsstring \<Rightarrow> dom \<Rightarrow> dom" where
  "set_nodeValue r v d =
     d\<lparr>nodes := (nodes d)(r := (nodes d r)\<lparr>nodeValue := Some v\<rparr>), writes := writes d @ [r]\<rparr>"

text \<open>
  \<open>originalValue.replace\<close> throws a \<open>TypeError\<close> when \<open>nodeValue\<close> is \<open>null\<close>.
\<close>

definition checkAndReplaceInTextNode ::
  "(jsstring \<Rightarrow> jsstring) \<Rightarrow> ref \<Rightarrow> dom \<Rightarrow> outcome option" where
  "checkAndReplaceInTextNode up textNode d =
     (case shouldSkipNode up textNode d of
        None \<Rightarrow> None
      | Some True \<Rightarrow> Some (Normal d)
      | Some False \<Rightarrow>
          (case nodeValue (nodes d textNode) of
             None \<Rightarrow> Some (Fault TypeError d)
           | Some originalValue \<Rightarrow>
               (let newValue = rewrite up originalValue
                in if newValue \<noteq> originalValue
                   then Some (Normal (set_nodeValue textNode newValue d))
                   else Some (Normal d))))"

subsection \<open>The sweep\<close>

text \<open>
  \<open>forEach\<close> and \<open>for ... of\<close>: the body runs on each element in turn; a body that throws
  or does not return ends the loop.
\<close>

fun forEach :: "('a \<Rightarrow> dom \<Rightarrow> outcome option) \<Rightarrow> 'a list \<Rightarrow> dom \<Rightarrow> outcome option" where
  "forEach f [] d = Some (Normal d)"
| "forEach f (x # xs) d =
     (case f x d of
        None \<Rightarrow> None
      | Some (Fault e d') \<Rightarrow> Some (Fault e d')
      | Some (Normal d') \<Rightarrow> forEach f xs d')"

text \<open>
  The tree walker made by \<open>createTreeWalker(rootNode, NodeFilter.SHOW_TEXT, null)\<close> and the
  loop \<open>while (currentNode = treeWalker.nextNode()) nodesToModify.push(currentNode)\<close>.
  \<open>nextNode\<close> moves to the next node behind the current one in document order that is
  inside the root and is a text node; it starts at the root and never returns the root
  itself. \<open>pending\<close> holds the nodes still to be visited, in document order: at the start
  the children of the root.
\<close>

partial_function (option) treeWalker_collect ::
  "dom \<Rightarrow> ref list \<Rightarrow> ref list \<Rightarrow> ref list option" where
  "treeWalker_collect d pending nodesToModify =
     (case pending of
        [] \<Rightarrow> Some nodesToModify
      | n # rest \<Rightarrow>
          treeWalker_collect d (childNodes (nodes d n) @ rest)
            (if nodeType (nodes d n) = TEXT_NODE then nodesToModify @ [n] else nodesToModify))"

declare treeWalker_collect.simps [code]

definition processNodes ::
  "(jsstring \<Rightarrow> jsstring) \<Rightarrow> ref option \<Rightarrow> dom \<Rightarrow> outcome option" where
  "processNodes up rootNode d =
     (case rootNode of
        None \<Rightarrow> Some (Normal d)
      | Some r \<Rightarrow>
          if nodeType (nodes d r) = ELEMENT_NODE \<and>
             (toUpperCase up (tagName (nodes d r)) \<in> set EXCLUDED_TAGS \<or>
              isContentEditable (nodes d r))
          then Some (Normal d)
          else (case treeWalker_collect d (childNodes (nodes d r)) [] of
                  None \<Rightarrow> None
                | Some nodesToModify \<Rightarrow>
                    forEach (checkAndReplaceInTextNode up) nodesToModify d))"

subsection \<open>The change feed\<close>

datatype mutation_type = childList | characterData | attributes

record MutationRecord =
  type :: mutation_type
  addedNodes :: "ref list"
  target :: ref

text \<open>The body of the \<open>for\<close> loop of the observer's callback, and the callback.\<close>

definition observer_record ::
  "(jsstring \<Rightarrow> jsstring) \<Rightarrow> MutationRecord \<Rightarrow> dom \<Rightarrow> outcome option" where
  "observer_record up mutation d =
     (if type mutation = childList
      then forEach (\<lambda>newNode. processNodes up (Some newNode)) (addedNodes mutation) d
      else if type mutation = characterData
      then checkAndReplaceInTextNode up (target mutation) d
      else Some (Normal d))"

definition observer ::
  "(jsstring \<Rightarrow> jsstring) \<Rightarrow> MutationRecord list \<Rightarrow> dom \<Rightarrow> outcome option" where
  "observer up mutationsList d = forEach (observer_record up) mutationsList d"

subsection \<open>Notions of the specification\<close>

text \<open>
  An element is excluded when its tag, in upper case, is in the exclusion set or when it
  is editable. \<open>element_ancestor d n a\<close>: \<open>a\<close> is reached from \<open>n\<close> along the parent links,
  through elements only. \<open>chain_ends d p\<close>: the parent chain that starts at \<open>p\<close> is finite.
\<close>

definition excluded :: "(jsstring \<Rightarrow> jsstring) \<Rightarrow> node \<Rightarrow> bool" where
  "excluded up n =
     (toUpperCase up (tagName n) \<in> set EXCLUDED_TAGS \<or> isContentEditable n)"

inductive element_ancestor :: "dom \<Rightarrow> ref \<Rightarrow> ref \<Rightarrow> bool" for d :: dom where
  parent: "parentNode (nodes d n) = Some a \<Longrightarrow> nodeType (nodes d a) = ELEMENT_NODE \<Longrightarrow>
     element_ancestor d n a"
| grand: "element_ancestor d n a \<Longrightarrow> parentNode (nodes d a) = Some b \<Longrightarrow>
     nodeType (nodes d b) = ELEMENT_NODE \<Longrightarrow> element_ancestor d n b"

inductive chain_ends :: "dom \<Rightarrow> ref option \<Rightarrow> bool" for d :: dom where
  top: "chain_ends d None"
| link: "chain_ends d (parentNode (nodes d e)) \<Longrightarrow> chain_ends d (Some e)"

code_pred element_ancestor .

code_pred chain_ends .

text \<open>
  Two states have the same structure when their nodes agree on everything but
  \<open>nodeValue\<close>.
\<close>

definition skeleton :: "node \<Rightarrow> node" where
  "skeleton n = n\<lparr>nodeValue := None\<rparr>"

definition same_structure :: "dom \<Rightarrow> dom \<Rightarrow> bool" where
  "same_structure d d' = (\<forall>r. skeleton (nodes d' r) = skeleton (nodes d r))"

text \<open>
  A finite tree laid out in the store: \<open>shape d t\<close> says that below the root of \<open>t\<close> the
  child lists of \<open>d\<close> are those of \<open>t\<close>. Document order is the preorder of the tree; the
  text descendants of the root are the text nodes behind the root in that order.
\<close>

datatype tree = Tree (root: ref) (subtrees: "tree list")

fun preorder :: "tree \<Rightarrow> ref list" where
  "preorder (Tree r ts) = r # concat (map preorder ts)"

fun shape :: "dom \<Rightarrow> tree \<Rightarrow> bool" where
  "shape d (Tree r ts) = (childNodes (nodes d r) = map root ts \<and> list_all (shape d) ts)"

definition text_descendants :: "dom \<Rightarrow> tree \<Rightarrow> ref list" where
  "text_descendants d t =
     filter (\<lambda>n. nodeType (nodes d n) = TEXT_NODE) (concat (map preorder (subtrees t)))"

subsection \<open>The effect of the operations\<close>

text \<open>
  \<open>text_nodes d\<close> are the text nodes of a state and \<open>targets ms\<close> the targets of the
  character-data records of a batch. \<open>rewritten up T d d'\<close> describes what an operation
  may do to a state: the structure stays, and there is a list \<open>ws\<close> of distinct nodes of
  \<open>T\<close>, the nodes written, such that every other node is the same, and every node
  written was not excluded, held a value with the phrase in it and now holds that value
  rewritten. \<open>valued T d\<close>: the nodes of \<open>T\<close> hold a string.
\<close>

definition text_nodes :: "dom \<Rightarrow> ref set" where
  "text_nodes d = {r. nodeType (nodes d r) = TEXT_NODE}"

definition targets :: "MutationRecord list \<Rightarrow> ref set" where
  "targets ms = set (map target (filter (\<lambda>m. type m = characterData) ms))"

definition rewritten :: "(jsstring \<Rightarrow> jsstring) \<Rightarrow> ref set \<Rightarrow> dom \<Rightarrow> dom \<Rightarrow> bool" where
  "rewritten up T d d' =
     (same_structure d d' \<and>
      (\<exists>ws. writes d' = writes d @ ws \<and> distinct ws \<and>
         (\<forall>r. r \<notin> set ws \<longrightarrow> nodes d' r = nodes d r) \<and>
         (\<forall>r. r \<in> set ws \<longrightarrow> r \<in> T \<and> shouldSkipNode up r d = Some False \<and>
            (\<exists>v. nodeValue (nodes d r) = Some v \<and> contains_phrase v \<and>
                 nodeValue (nodes d' r) = Some (rewrite up v)))))"


subsection \<open>An example document\<close>

text \<open>
  The body of a page: a paragraph \<open>The <b>Gulf of America</b> is large.\<close>, a script, a
  text three levels inside a \<open>code\<close> element, and an editable \<open>div\<close>, each of them with
  the phrase in it.
\<close>

definition blank_node :: node where
  "blank_node = \<lparr>nodeType = DOCUMENT_NODE, tagName = [], isContentEditable = False,
     nodeValue = None, parentNode = None, childNodes = []\<rparr>"

definition element_node :: "string \<Rightarrow> bool \<Rightarrow> ref option \<Rightarrow> ref list \<Rightarrow> node" where
  "element_node tag editable p cs = \<lparr>nodeType = ELEMENT_NODE, tagName = js tag,
     isContentEditable = editable, nodeValue = None, parentNode = p, childNodes = cs\<rparr>"

definition text_node :: "string \<Rightarrow> ref option \<Rightarrow> node" where
  "text_node v p = \<lparr>nodeType = TEXT_NODE, tagName = [], isContentEditable = False,
     nodeValue = Some (js v), parentNode = p, childNodes = []\<rparr>"

definition page :: dom where
  "page = \<lparr>nodes = (\<lambda>_. blank_node)
     (0 := element_node ''BODY'' False None [1, 6, 8, 12],
      1 := element_node ''P'' False (Some 0) [2, 3, 5],
      2 := text_node ''The '' (Some 1),
      3 := element_node ''B'' False (Some 1) [4],
      4 := text_node ''Gulf of America'' (Some 3),
      5 := text_node '' is large.'' (Some 1),
      6 := element_node ''SCRIPT'' False (Some 0) [7],
      7 := text_node ''Gulf of America'' (Some 6),
      8 := element_node ''code'' False (Some 0) [9],
      9 := element_node ''SPAN'' False (Some 8) [10],
      10 := element_node ''EM'' False (Some 9) [11],
      11 := text_node ''gulf of america'' (Some 10),
      12 := element_node ''DIV'' True (Some 0) [13],
      13 := text_node ''Gulf of America'' (Some 12)),
     writes = []\<rparr>"


section \<open>Properties of the rewrite engine\<close>

subsection \<open>The constants\<close>

lemma SEARCH_REGEX_eq:
  "SEARCH_REGEX = [71, 117, 108, 102, 32, 111, 102, 32, 65, 109, 101, 114, 105, 99, 97]"
  by (simp add: SEARCH_REGEX_def escapeRegExp_def TEXT_TO_FIND_def js_def syntax_characters_def)

lemma TEXT_TO_FIND_eq:
  "TEXT_TO_FIND = [71, 117, 108, 102, 32, 111, 102, 32, 65, 109, 101, 114, 105, 99, 97]"
  by (simp add: TEXT_TO_FIND_def js_def)

lemma TEXT_TO_REPLACE_WITH_eq:
  "TEXT_TO_REPLACE_WITH = [71, 117, 108, 102, 32, 111, 102, 32, 77, 101, 120, 105, 99, 111]"
  by (simp add: TEXT_TO_REPLACE_WITH_def js_def)

lemma length_SEARCH_REGEX: "length SEARCH_REGEX = 15"
  by (simp add: SEARCH_REGEX_eq)

lemma SEARCH_REGEX_Cons: "SEARCH_REGEX = 71 # tl SEARCH_REGEX"
  by (simp add: SEARCH_REGEX_eq)

lemma TEXT_TO_REPLACE_WITH_Cons: "TEXT_TO_REPLACE_WITH = 71 # tl TEXT_TO_REPLACE_WITH"
  by (simp add: TEXT_TO_REPLACE_WITH_eq)

subsection \<open>Canonical code units\<close>

lemma ascii_upper_less: "c < 128 \<Longrightarrow> ascii_upper c < 128"
  unfolding ascii_upper_def by unat_arith

lemma Canonicalize_ascii: "c < 128 \<Longrightarrow> Canonicalize up c = ascii_upper c"
  by (auto simp: Canonicalize_def toUpperCase_def not_le)

lemma Canonicalize_not_ascii: "\<not> c < 128 \<Longrightarrow> \<not> Canonicalize up c < 128"
  by (auto simp: Canonicalize_def toUpperCase_def split: list.splits)

lemma Canonicalize_eq_ascii:
  "p < 128 \<Longrightarrow>
   (Canonicalize up p = Canonicalize up c) = (c < 128 \<and> ascii_upper c = ascii_upper p)"
  by (metis Canonicalize_ascii Canonicalize_not_ascii ascii_upper_less)

lemma ascii_upper_less_iff: "ascii_upper c < 128 \<longleftrightarrow> c < 128"
  unfolding ascii_upper_def by unat_arith

lemma ascii_upper_eq_ascii:
  "p < 128 \<Longrightarrow> ascii_upper c = ascii_upper p \<Longrightarrow> c < 128"
  using ascii_upper_less_iff[of c] ascii_upper_less[of p] by simp

subsection \<open>Matching at the head of a string\<close>

lemma matchesAt_length: "matchesAt up q s \<Longrightarrow> length q \<le> length s"
  by (induction up q s rule: matchesAt.induct) auto

lemma matchesAt_append: "matchesAt up q s \<Longrightarrow> matchesAt up q (s @ t)"
  by (induction up q s rule: matchesAt.induct) auto

lemma matchesAt_take: "matchesAt up q s = matchesAt up q (take (length q) s)"
  by (induction up q s rule: matchesAt.induct) auto

lemma matchesAt_ascii:
  "list_all (\<lambda>p. p < 128) q \<Longrightarrow>
   matchesAt up q s = same_ignoring_case (take (length q) s) q"
proof (induction q arbitrary: s)
  case Nil
  then show ?case by (simp add: same_ignoring_case_def)
next
  case (Cons p q)
  show ?case
  proof (cases s)
    case Nil
    then show ?thesis by (simp add: same_ignoring_case_def)
  next
    case (Cons c cs)
    have "matchesAt up q cs = same_ignoring_case (take (length q) cs) q"
      using Cons.IH Cons.prems by simp
    moreover have "(Canonicalize up p = Canonicalize up c) = (ascii_upper c = ascii_upper p)"
      using Cons.prems Canonicalize_eq_ascii ascii_upper_eq_ascii by auto
    ultimately show ?thesis using Cons by (simp add: same_ignoring_case_def)
  qed
qed

lemma matchesAt_SEARCH_REGEX:
  "matchesAt up SEARCH_REGEX s = same_ignoring_case (take (length TEXT_TO_FIND) s) TEXT_TO_FIND"
proof -
  have "list_all (\<lambda>p. p < 128) SEARCH_REGEX" by (simp add: SEARCH_REGEX_eq)
  then show ?thesis
    using matchesAt_ascii[of SEARCH_REGEX up s] by (simp add: SEARCH_REGEX_eq TEXT_TO_FIND_eq)
qed

lemma gfree_tl_SEARCH_REGEX: "gfree up (tl SEARCH_REGEX)"
  by (simp add: gfree_def SEARCH_REGEX_eq Canonicalize_eq_ascii ascii_upper_def)

lemma gfree_tl_TEXT_TO_REPLACE_WITH: "gfree up (tl TEXT_TO_REPLACE_WITH)"
  by (simp add: gfree_def TEXT_TO_REPLACE_WITH_eq Canonicalize_eq_ascii ascii_upper_def)

lemma not_matchesAt_replacement: "\<not> matchesAt up SEARCH_REGEX (TEXT_TO_REPLACE_WITH @ t)"
  by (simp add: SEARCH_REGEX_eq TEXT_TO_REPLACE_WITH_eq Canonicalize_eq_ascii ascii_upper_def)

lemma matchesAt_gfree_append:
  "gfree up q \<Longrightarrow> Canonicalize up g = Canonicalize up 71 \<Longrightarrow>
   matchesAt up q (u @ g # w) = matchesAt up q u"
proof (induction q arbitrary: u)
  case Nil
  then show ?case by simp
next
  case (Cons x q)
  then show ?case by (cases u) (auto simp: gfree_def)
qed

lemma not_matchesAt_gfree_Cons:
  assumes "gfree up (x # r)"
  shows "\<not> matchesAt up SEARCH_REGEX (x # r @ t)"
proof -
  have "\<not> matchesAt up (71 # tl SEARCH_REGEX) (x # r @ t)"
    using assms by (simp add: gfree_def) metis
  then show ?thesis using SEARCH_REGEX_Cons by metis
qed

subsection \<open>The scan\<close>

lemma rewrite_Nil: "rewrite up [] = []"
  by (simp add: rewrite_def)

lemma rewrite_Cons:
  "rewrite up (c # cs) =
     (if matchesAt up SEARCH_REGEX (c # cs)
      then TEXT_TO_REPLACE_WITH @ rewrite up (drop 15 (c # cs))
      else c # rewrite up cs)"
  by (simp add: rewrite_def length_SEARCH_REGEX) (simp add: SEARCH_REGEX_eq)

lemma rewrite_induct [case_names Nil Cons]:
  assumes "P []"
    and "\<And>c cs. (matchesAt up SEARCH_REGEX (c # cs) \<Longrightarrow> P (drop 15 (c # cs))) \<Longrightarrow>
                 (\<not> matchesAt up SEARCH_REGEX (c # cs) \<Longrightarrow> P cs) \<Longrightarrow> P (c # cs)"
  shows "P s"
proof (induction s rule: length_induct)
  case (1 xs)
  show ?case
  proof (cases xs)
    case Nil
    then show ?thesis using assms(1) by simp
  next
    case (Cons c cs)
    have "P (drop 15 (c # cs))" using 1 Cons by simp
    moreover have "P cs" using 1 Cons by simp
    ultimately show ?thesis using assms(2) Cons by blast
  qed
qed

text \<open>
  A pattern without G that matches at the head of the output matched at the head of
  the input already: where the scan replaces, the output starts with G.
\<close>

lemma gfree_matchesAt_rewrite:
  "gfree up q \<Longrightarrow> matchesAt up q (rewrite up s) \<Longrightarrow> matchesAt up q s"
proof (induction q arbitrary: s)
  case Nil
  then show ?case by simp
next
  case (Cons x q)
  show ?case
  proof (cases s)
    case Nil
    then show ?thesis using Cons.prems by (simp add: rewrite_Nil)
  next
    case (Cons c cs)
    show ?thesis
    proof (cases "matchesAt up SEARCH_REGEX (c # cs)")
      case True
      then have "rewrite up s =
          71 # tl TEXT_TO_REPLACE_WITH @ rewrite up (drop 15 (c # cs))"
        using Cons TEXT_TO_REPLACE_WITH_Cons by (metis rewrite_Cons append_Cons)
      then show ?thesis using Cons.prems by (simp add: gfree_def)
    next
      case False
      then have "rewrite up s = c # rewrite up cs" using Cons by (simp add: rewrite_Cons)
      then show ?thesis using Cons.prems Cons.IH[of cs] Cons by (simp add: gfree_def)
    qed
  qed
qed

lemma not_matchesAt_rewrite: "\<not> matchesAt up SEARCH_REGEX (rewrite up s)"
proof (cases s)
  case Nil
  then show ?thesis by (simp add: rewrite_Nil SEARCH_REGEX_eq)
next
  case (Cons c cs)
  show ?thesis
  proof (cases "matchesAt up SEARCH_REGEX (c # cs)")
    case True
    then show ?thesis using Cons not_matchesAt_replacement by (simp add: rewrite_Cons)
  next
    case False
    have "matchesAt up SEARCH_REGEX (c # cs)" if a: "matchesAt up SEARCH_REGEX (c # rewrite up cs)"
    proof -
      have "matchesAt up (71 # tl SEARCH_REGEX) (c # rewrite up cs)"
        using a SEARCH_REGEX_Cons by metis
      then have "Canonicalize up 71 = Canonicalize up c"
        and "matchesAt up (tl SEARCH_REGEX) (rewrite up cs)"
        by simp_all
      then have "matchesAt up (71 # tl SEARCH_REGEX) (c # cs)"
        using gfree_matchesAt_rewrite[OF gfree_tl_SEARCH_REGEX] by simp
      then show ?thesis using SEARCH_REGEX_Cons by metis
    qed
    then show ?thesis using False Cons by (auto simp: rewrite_Cons)
  qed
qed

lemma rewrite_gfree_append: "gfree up r \<Longrightarrow> rewrite up (r @ t) = r @ rewrite up t"
proof (induction r)
  case Nil
  then show ?case by simp
next
  case (Cons x r)
  then show ?case
    using not_matchesAt_gfree_Cons[of up x r t] by (simp add: rewrite_Cons gfree_def)
qed

lemma rewrite_replacement_append:
  "rewrite up (TEXT_TO_REPLACE_WITH @ t) = TEXT_TO_REPLACE_WITH @ rewrite up t"
proof -
  have "rewrite up (71 # tl TEXT_TO_REPLACE_WITH @ t) =
      71 # rewrite up (tl TEXT_TO_REPLACE_WITH @ t)"
    using not_matchesAt_replacement[of up t] TEXT_TO_REPLACE_WITH_Cons
    by (metis rewrite_Cons append_Cons)
  then show ?thesis
    using rewrite_gfree_append[OF gfree_tl_TEXT_TO_REPLACE_WITH] TEXT_TO_REPLACE_WITH_Cons
    by (metis append_Cons)
qed

lemma rewrite_rewrite: "rewrite up (rewrite up s) = rewrite up s"
proof (induction s rule: rewrite_induct[where up = up])
  case Nil
  then show ?case by (simp add: rewrite_Nil)
next
  case (Cons c cs)
  show ?case
  proof (cases "matchesAt up SEARCH_REGEX (c # cs)")
    case True
    then show ?thesis using Cons(1) by (simp add: rewrite_Cons rewrite_replacement_append)
  next
    case False
    have "\<not> matchesAt up SEARCH_REGEX (c # rewrite up cs)"
      using not_matchesAt_rewrite[of up "c # cs"] False by (simp add: rewrite_Cons)
    then show ?thesis using False Cons(2) by (simp add: rewrite_Cons)
  qed
qed

subsection \<open>Occurrences\<close>

lemma contains_phrase_Cons:
  "contains_phrase (c # cs) = (matchesAt up SEARCH_REGEX (c # cs) \<or> contains_phrase cs)"
  by (simp add: matchesAt_SEARCH_REGEX)

lemma phrase_matchesAt:
  "same_ignoring_case m TEXT_TO_FIND \<Longrightarrow> length m = 15 \<and> matchesAt up SEARCH_REGEX m"
proof -
  assume a: "same_ignoring_case m TEXT_TO_FIND"
  then have "length (map ascii_upper m) = length (map ascii_upper TEXT_TO_FIND)"
    unfolding same_ignoring_case_def by simp
  then have l: "length m = 15" by (simp add: TEXT_TO_FIND_eq)
  then have "take (length TEXT_TO_FIND) m = m" by (simp add: TEXT_TO_FIND_eq)
  then show ?thesis using a l by (simp add: matchesAt_SEARCH_REGEX)
qed

lemma contains_phrase_iff:
  "contains_phrase s \<longleftrightarrow> (\<exists>u m v. s = u @ m @ v \<and> same_ignoring_case m TEXT_TO_FIND)"
proof (induction s)
  case Nil
  then show ?case by (auto simp: same_ignoring_case_def TEXT_TO_FIND_eq)
next
  case (Cons c cs)
  show ?case
  proof
    assume "contains_phrase (c # cs)"
    then consider "same_ignoring_case (take (length TEXT_TO_FIND) (c # cs)) TEXT_TO_FIND"
      | "contains_phrase cs" by auto
    then show "\<exists>u m v. c # cs = u @ m @ v \<and> same_ignoring_case m TEXT_TO_FIND"
    proof cases
      case 1
      have "c # cs = [] @ take (length TEXT_TO_FIND) (c # cs) @ drop (length TEXT_TO_FIND) (c # cs)"
        by simp
      then show ?thesis using 1 by blast
    next
      case 2
      then obtain u m v where "cs = u @ m @ v" "same_ignoring_case m TEXT_TO_FIND"
        using Cons by blast
      then have "c # cs = (c # u) @ m @ v" by simp
      then show ?thesis using \<open>same_ignoring_case m TEXT_TO_FIND\<close> by blast
    qed
  next
    assume "\<exists>u m v. c # cs = u @ m @ v \<and> same_ignoring_case m TEXT_TO_FIND"
    then obtain u m v where s: "c # cs = u @ m @ v" and m: "same_ignoring_case m TEXT_TO_FIND"
      by blast
    show "contains_phrase (c # cs)"
    proof (cases u)
      case Nil
      then have "matchesAt id SEARCH_REGEX (c # cs)"
        using s m phrase_matchesAt[of m id] matchesAt_append[of id SEARCH_REGEX m v] by simp
      then show ?thesis using contains_phrase_Cons[of c cs id] by simp
    next
      case (Cons a u')
      then have "cs = u' @ m @ v" using s by simp
      then show ?thesis using m Cons.IH by auto
    qed
  qed
qed

lemma rewrite_no_phrase: "\<not> contains_phrase s \<Longrightarrow> rewrite up s = s"
proof (induction s)
  case Nil
  then show ?case by (simp add: rewrite_Nil)
next
  case (Cons c cs)
  then show ?case using contains_phrase_Cons[of c cs up] by (simp add: rewrite_Cons)
qed

lemma contains_phrase_gfree_append:
  "gfree up r \<Longrightarrow> contains_phrase (r @ t) = contains_phrase t"
proof (induction r)
  case Nil
  then show ?case by simp
next
  case (Cons x r)
  have "contains_phrase (x # r @ t) = contains_phrase (r @ t)"
    using not_matchesAt_gfree_Cons[OF Cons.prems, of t] contains_phrase_Cons[of x "r @ t" up]
    by simp
  then show ?case using Cons by (simp add: gfree_def)
qed

lemma contains_phrase_replacement_append:
  "contains_phrase (TEXT_TO_REPLACE_WITH @ t) = contains_phrase t"
proof -
  have "contains_phrase (71 # tl TEXT_TO_REPLACE_WITH @ t) =
      contains_phrase (tl TEXT_TO_REPLACE_WITH @ t)"
    using not_matchesAt_replacement[of id t] TEXT_TO_REPLACE_WITH_Cons
      contains_phrase_Cons[of 71 "tl TEXT_TO_REPLACE_WITH @ t" id]
    by (metis append_Cons)
  then show ?thesis
    using contains_phrase_gfree_append[OF gfree_tl_TEXT_TO_REPLACE_WITH[of id]]
      TEXT_TO_REPLACE_WITH_Cons
    by (metis append_Cons)
qed

lemma no_phrase_rewrite: "\<not> contains_phrase (rewrite up s)"
proof (induction s rule: rewrite_induct[where up = up])
  case Nil
  then show ?case by (simp add: rewrite_Nil)
next
  case (Cons c cs)
  show ?case
  proof (cases "matchesAt up SEARCH_REGEX (c # cs)")
    case True
    then show ?thesis
      using Cons(1) by (simp add: rewrite_Cons contains_phrase_replacement_append)
  next
    case False
    have "\<not> matchesAt up SEARCH_REGEX (c # rewrite up cs)"
      using not_matchesAt_rewrite[of up "c # cs"] False by (simp add: rewrite_Cons)
    then show ?thesis
      using False Cons(2) contains_phrase_Cons[of c "rewrite up cs" up]
      by (simp add: rewrite_Cons)
  qed
qed

text \<open>
  An occurrence of the phrase starts with G, so no match of the scan can begin before
  the occurrence and reach into it.
\<close>

lemma matchesAt_before_occurrence:
  assumes m: "same_ignoring_case m TEXT_TO_FIND" and u: "u \<noteq> []"
  shows "matchesAt up SEARCH_REGEX (u @ m @ v) = matchesAt up SEARCH_REGEX u"
proof -
  have lm: "length m = 15" and mm: "matchesAt up SEARCH_REGEX m"
    using phrase_matchesAt[OF m] by simp_all
  obtain g m' where gm: "m = g # m'" using lm by (cases m) auto
  have g: "Canonicalize up g = Canonicalize up 71"
    using mm gm SEARCH_REGEX_Cons by (metis matchesAt.simps(3))
  obtain c cs where uu: "u = c # cs" using u by (cases u) auto
  have "matchesAt up (71 # tl SEARCH_REGEX) (c # cs @ g # (m' @ v)) =
      matchesAt up (71 # tl SEARCH_REGEX) (c # cs)"
    using matchesAt_gfree_append[OF gfree_tl_SEARCH_REGEX g] by simp
  then show ?thesis using SEARCH_REGEX_Cons uu gm by (metis append_Cons)
qed

lemma rewrite_occurrence_head:
  assumes m: "same_ignoring_case m TEXT_TO_FIND"
  shows "rewrite up (m @ v) = TEXT_TO_REPLACE_WITH @ rewrite up v"
proof -
  have lm: "length m = 15" and mm: "matchesAt up SEARCH_REGEX m"
    using phrase_matchesAt[OF m] by simp_all
  obtain g m' where gm: "m = g # m'" using lm by (cases m) auto
  have "matchesAt up SEARCH_REGEX (m @ v)" using mm matchesAt_append by simp
  moreover have "drop 15 (m @ v) = v" using lm by simp
  ultimately show ?thesis using gm by (metis rewrite_Cons append_Cons)
qed

lemma rewrite_occurrence:
  assumes m: "same_ignoring_case m TEXT_TO_FIND"
  shows "rewrite up (u @ m @ v) = rewrite up u @ TEXT_TO_REPLACE_WITH @ rewrite up v"
proof (induction u rule: rewrite_induct[where up = up])
  case Nil
  then show ?case using rewrite_occurrence_head[OF m] by (simp add: rewrite_Nil)
next
  case (Cons c cs)
  have eq: "matchesAt up SEARCH_REGEX ((c # cs) @ m @ v) = matchesAt up SEARCH_REGEX (c # cs)"
    using matchesAt_before_occurrence[OF m] by blast
  show ?case
  proof (cases "matchesAt up SEARCH_REGEX (c # cs)")
    case True
    then have "15 \<le> length (c # cs)" using matchesAt_length length_SEARCH_REGEX by metis
    then have "drop 15 ((c # cs) @ m @ v) = drop 15 (c # cs) @ m @ v" by simp
    then have "rewrite up ((c # cs) @ m @ v) =
        TEXT_TO_REPLACE_WITH @ rewrite up (drop 15 (c # cs) @ m @ v)"
      using True eq by (metis rewrite_Cons append_Cons)
    then show ?thesis using Cons(1)[OF True] True by (simp add: rewrite_Cons)
  next
    case False
    then have "rewrite up ((c # cs) @ m @ v) = c # rewrite up (cs @ m @ v)"
      using eq by (simp add: rewrite_Cons)
    then show ?thesis using Cons(2)[OF False] False by (simp add: rewrite_Cons)
  qed
qed

subsection \<open>The claims about the engine\<close>

text \<open>
  C1. For every input string, the rewrite engine returns the input unchanged when the
  string contains no occurrence of the phrase up to case; when it contains one, the
  result is a different string; and every occurrence is replaced: wherever a substring
  \<open>m\<close> is the phrase up to case, be it the whole string, at either end or one of many,
  the result is the rewritten text before it, the replacement, and the rewritten text
  behind it. (By lemma \<open>contains_phrase_iff\<close> a string contains the phrase exactly when
  it is \<open>u @ m @ v\<close> for such an \<open>m\<close>.)
\<close>

theorem rewrite_replaces_every_occurrence:
  "(\<not> contains_phrase s \<longrightarrow> rewrite up s = s) \<and>
   (contains_phrase s \<longrightarrow> rewrite up s \<noteq> s) \<and>
   (\<forall>u m v. same_ignoring_case m TEXT_TO_FIND \<longrightarrow>
      rewrite up (u @ m @ v) = rewrite up u @ TEXT_TO_REPLACE_WITH @ rewrite up v)"
proof -
  have "rewrite up s \<noteq> s" if "contains_phrase s"
    using that no_phrase_rewrite[of up s] by auto
  then show ?thesis using rewrite_no_phrase rewrite_occurrence by blast
qed

theorem rewrite_replaces_every_occurrence_witness:
  "\<not> contains_phrase (js ''Gulf of Mexico'') \<and>
   rewrite (\<lambda>s. s) (js ''Gulf of Mexico'') = js ''Gulf of Mexico'' \<and>
   contains_phrase (js ''the gulf of america'') \<and>
   rewrite (\<lambda>s. s) (js ''the gulf of america'') \<noteq> js ''the gulf of america'' \<and>
   same_ignoring_case (js ''GULF OF AMERICA'') TEXT_TO_FIND \<and>
   rewrite (\<lambda>s. s) (js ''A gulf of america '' @ js ''GULF OF AMERICA'' @ js ''.'') =
     js ''A Gulf of Mexico Gulf of Mexico.''"
proof -
  have h1: "\<not> contains_phrase (js ''Gulf of Mexico'')"
    by (simp add: js_def TEXT_TO_FIND_eq same_ignoring_case_def ascii_upper_def)
  have h2: "contains_phrase (js ''the gulf of america'')"
    by (simp add: js_def TEXT_TO_FIND_eq same_ignoring_case_def ascii_upper_def)
  have h3: "same_ignoring_case (js ''GULF OF AMERICA'') TEXT_TO_FIND"
    by (simp add: js_def TEXT_TO_FIND_eq same_ignoring_case_def ascii_upper_def)
  have h4: "same_ignoring_case (js ''gulf of america'') TEXT_TO_FIND"
    by (simp add: js_def TEXT_TO_FIND_eq same_ignoring_case_def ascii_upper_def)
  have r1: "rewrite (\<lambda>s. s) (js ''A '') = js ''A ''"
    and r2: "rewrite (\<lambda>s. s) (js '' '') = js '' ''"
    and r3: "rewrite (\<lambda>s. s) (js ''.'') = js ''.''"
    by (simp_all add: js_def rewrite_Cons rewrite_Nil SEARCH_REGEX_eq)
  have c1: "rewrite (\<lambda>s. s) (js ''Gulf of Mexico'') = js ''Gulf of Mexico''"
    using rewrite_replaces_every_occurrence[of "js ''Gulf of Mexico''" "\<lambda>s. s"] h1 by blast
  have c2: "rewrite (\<lambda>s. s) (js ''the gulf of america'') \<noteq> js ''the gulf of america''"
    using rewrite_replaces_every_occurrence[of "js ''the gulf of america''" "\<lambda>s. s"] h2 by blast
  have "rewrite (\<lambda>s. s) (js ''A '' @ js ''gulf of america'' @ (js '' '' @ js ''GULF OF AMERICA'' @ js ''.'')) =
      rewrite (\<lambda>s. s) (js ''A '') @ TEXT_TO_REPLACE_WITH @
        rewrite (\<lambda>s. s) (js '' '' @ js ''GULF OF AMERICA'' @ js ''.'')"
    using rewrite_replaces_every_occurrence[of "[]" "\<lambda>s. s"] h4 by blast
  moreover have "rewrite (\<lambda>s. s) (js '' '' @ js ''GULF OF AMERICA'' @ js ''.'') =
      rewrite (\<lambda>s. s) (js '' '') @ TEXT_TO_REPLACE_WITH @ rewrite (\<lambda>s. s) (js ''.'')"
    using rewrite_replaces_every_occurrence[of "[]" "\<lambda>s. s"] h3 by blast
  ultimately have c3: "rewrite (\<lambda>s. s) (js ''A gulf of america '' @ js ''GULF OF AMERICA'' @ js ''.'') =
      js ''A Gulf of Mexico Gulf of Mexico.''"
    using r1 r2 r3 by (simp add: js_def TEXT_TO_REPLACE_WITH_eq)
  show ?thesis using h1 h2 h3 c1 c2 c3 by blast
qed

text \<open>
  C3. The rewrite engine is idempotent, and the reason is that its output contains no
  occurrence of the phrase up to case: the replacement creates none, neither inside
  itself nor together with the text around it.
\<close>

theorem rewrite_idempotent:
  "rewrite up (rewrite up s) = rewrite up s \<and> \<not> contains_phrase (rewrite up s)"
  using rewrite_rewrite no_phrase_rewrite by blast

theorem rewrite_idempotent_witness:
  "rewrite (\<lambda>s. s) (rewrite (\<lambda>s. s) (js ''Gulf of AmerGulf of Americaica'')) =
     rewrite (\<lambda>s. s) (js ''Gulf of AmerGulf of Americaica'') \<and>
   rewrite (\<lambda>s. s) (js ''Gulf of AmerGulf of Americaica'') = js ''Gulf of AmerGulf of Mexicoica''"
proof -
  have "rewrite (\<lambda>s. s) (js ''Gulf of AmerGulf of Americaica'') = js ''Gulf of AmerGulf of Mexicoica''"
    by (simp add: js_def rewrite_Cons rewrite_Nil SEARCH_REGEX_eq TEXT_TO_REPLACE_WITH_eq
        Canonicalize_eq_ascii ascii_upper_def)
  then show ?thesis
    using rewrite_idempotent[of "\<lambda>s. s" "js ''Gulf of AmerGulf of Americaica''"] by simp
qed

section \<open>Properties of the document operations\<close>

subsection \<open>States of the same structure\<close>

lemma skeleton_eqD:
  assumes "skeleton a = skeleton b"
  shows "nodeType a = nodeType b" "tagName a = tagName b"
    "isContentEditable a = isContentEditable b" "parentNode a = parentNode b"
    "childNodes a = childNodes b"
proof -
  have "nodeType (skeleton a) = nodeType (skeleton b)" "tagName (skeleton a) = tagName (skeleton b)"
    "isContentEditable (skeleton a) = isContentEditable (skeleton b)"
    "parentNode (skeleton a) = parentNode (skeleton b)"
    "childNodes (skeleton a) = childNodes (skeleton b)"
    using assms by simp_all
  then show "nodeType a = nodeType b" "tagName a = tagName b"
    "isContentEditable a = isContentEditable b" "parentNode a = parentNode b"
    "childNodes a = childNodes b"
    by (simp_all add: skeleton_def)
qed

lemma skeleton_nodeValue_update [simp]: "skeleton (n\<lparr>nodeValue := v\<rparr>) = skeleton n"
  by (simp add: skeleton_def)

lemma same_structure_refl: "same_structure d d"
  by (simp add: same_structure_def)

lemma same_structure_sym: "same_structure d d' \<Longrightarrow> same_structure d' d"
  by (simp add: same_structure_def)

lemma same_structure_trans:
  "same_structure d d' \<Longrightarrow> same_structure d' d'' \<Longrightarrow> same_structure d d''"
  by (simp add: same_structure_def)

lemma same_structure_set_nodeValue: "same_structure d (set_nodeValue r v d)"
  by (simp add: same_structure_def set_nodeValue_def)

lemma same_structureD:
  assumes "same_structure d d'"
  shows "nodeType (nodes d' r) = nodeType (nodes d r)" "tagName (nodes d' r) = tagName (nodes d r)"
    "isContentEditable (nodes d' r) = isContentEditable (nodes d r)"
    "parentNode (nodes d' r) = parentNode (nodes d r)"
    "childNodes (nodes d' r) = childNodes (nodes d r)"
  using assms skeleton_eqD[of "nodes d' r" "nodes d r"] by (simp_all add: same_structure_def)

lemma shouldSkipNode_loop_structure_Some:
  assumes "shouldSkipNode_loop up d cur = Some b" and "same_structure d d'"
  shows "shouldSkipNode_loop up d' cur = Some b"
  using assms
proof (induction rule: shouldSkipNode_loop.raw_induct[rotated 1, consumes 1])
  case (1 loop up d cur b)
  show ?case
  proof (cases cur)
    case None
    then show ?thesis using 1(2) by (simp add: shouldSkipNode_loop.simps)
  next
    case (Some e)
    note s = same_structureD[OF 1(3), of e]
    show ?thesis
      using 1(1)[of up d "parentNode (nodes d e)" b] 1(2) 1(3) Some
      by (subst shouldSkipNode_loop.simps) (auto simp: s split: if_splits)
  qed
qed

lemma shouldSkipNode_loop_structure:
  assumes "same_structure d d'"
  shows "shouldSkipNode_loop up d' cur = shouldSkipNode_loop up d cur"
proof (cases "shouldSkipNode_loop up d cur")
  case None
  show ?thesis
  proof (cases "shouldSkipNode_loop up d' cur")
    case None
    then show ?thesis using \<open>shouldSkipNode_loop up d cur = None\<close> by simp
  next
    case (Some b)
    then show ?thesis
      using shouldSkipNode_loop_structure_Some[OF Some same_structure_sym[OF assms]] by simp
  qed
next
  case (Some b)
  then show ?thesis using shouldSkipNode_loop_structure_Some[OF Some assms] by simp
qed

lemma shouldSkipNode_structure:
  "same_structure d d' \<Longrightarrow> shouldSkipNode up t d' = shouldSkipNode up t d"
  by (simp add: shouldSkipNode_def shouldSkipNode_loop_structure same_structureD)

lemma treeWalker_collect_structure_Some:
  assumes "treeWalker_collect d pending acc = Some ns" and "same_structure d d'"
  shows "treeWalker_collect d' pending acc = Some ns"
  using assms
proof (induction rule: treeWalker_collect.raw_induct[rotated 1, consumes 1])
  case (1 collect d pending acc ns)
  show ?case
  proof (cases pending)
    case Nil
    then show ?thesis using 1(2) by (simp add: treeWalker_collect.simps)
  next
    case (Cons n rest)
    note s = same_structureD[OF 1(3), of n]
    show ?thesis
      using 1(1) 1(2) 1(3) Cons
      by (subst treeWalker_collect.simps) (auto simp: s split: if_splits)
  qed
qed

lemma treeWalker_collect_structure:
  assumes "same_structure d d'"
  shows "treeWalker_collect d' pending acc = treeWalker_collect d pending acc"
proof (cases "treeWalker_collect d pending acc")
  case None
  show ?thesis
  proof (cases "treeWalker_collect d' pending acc")
    case None
    then show ?thesis using \<open>treeWalker_collect d pending acc = None\<close> by simp
  next
    case (Some b)
    then show ?thesis
      using treeWalker_collect_structure_Some[OF Some same_structure_sym[OF assms]] by simp
  qed
next
  case (Some b)
  then show ?thesis using treeWalker_collect_structure_Some[OF Some assms] by simp
qed

lemma treeWalker_collect_text:
  assumes "treeWalker_collect d pending acc = Some ns"
  shows "\<forall>n\<in>set ns. n \<in> set acc \<or> nodeType (nodes d n) = TEXT_NODE"
  using assms
proof (induction rule: treeWalker_collect.raw_induct[rotated 1, consumes 1])
  case (1 collect d pending acc ns)
  show ?case
  proof (cases pending)
    case Nil
    then show ?thesis using 1(2) by simp
  next
    case (Cons n rest)
    then show ?thesis using 1(1) 1(2) by (fastforce split: if_splits)
  qed
qed

subsection \<open>What an operation may write\<close>

lemma rewrite_changes_iff: "rewrite up v \<noteq> v \<longleftrightarrow> contains_phrase v"
  using rewrite_no_phrase[of v up] no_phrase_rewrite[of up v] by auto

lemma rewritten_refl: "rewritten up T d d"
  unfolding rewritten_def using same_structure_refl by (auto intro: exI[of _ "[]"])

lemma rewritten_mono: "rewritten up T d d' \<Longrightarrow> T \<subseteq> T' \<Longrightarrow> rewritten up T' d d'"
  unfolding rewritten_def by blast

lemma rewritten_trans:
  assumes R1: "rewritten up T d d'" and R2: "rewritten up T d' d''"
  shows "rewritten up T d d''"
proof -
  from R1 obtain ws1 where s1: "same_structure d d'"
    and w1: "writes d' = writes d @ ws1" and d1: "distinct ws1"
    and u1: "\<And>r. r \<notin> set ws1 \<Longrightarrow> nodes d' r = nodes d r"
    and c1: "\<And>r. r \<in> set ws1 \<Longrightarrow> r \<in> T \<and> shouldSkipNode up r d = Some False \<and>
            (\<exists>v. nodeValue (nodes d r) = Some v \<and> contains_phrase v \<and>
                 nodeValue (nodes d' r) = Some (rewrite up v))"
    unfolding rewritten_def by blast
  from R2 obtain ws2 where s2: "same_structure d' d''"
    and w2: "writes d'' = writes d' @ ws2" and d2: "distinct ws2"
    and u2: "\<And>r. r \<notin> set ws2 \<Longrightarrow> nodes d'' r = nodes d' r"
    and c2: "\<And>r. r \<in> set ws2 \<Longrightarrow> r \<in> T \<and> shouldSkipNode up r d' = Some False \<and>
            (\<exists>v. nodeValue (nodes d' r) = Some v \<and> contains_phrase v \<and>
                 nodeValue (nodes d'' r) = Some (rewrite up v))"
    unfolding rewritten_def by blast
  have disj: "r \<notin> set ws2" if r1: "r \<in> set ws1" for r
  proof
    assume "r \<in> set ws2"
    then obtain v' where "nodeValue (nodes d' r) = Some v'" "contains_phrase v'"
      using c2 by blast
    moreover obtain v where "nodeValue (nodes d' r) = Some (rewrite up v)"
      using c1[OF r1] by blast
    ultimately show False using no_phrase_rewrite[of up v] by simp
  qed
  have a: "same_structure d d''" using s1 s2 same_structure_trans by blast
  have b: "writes d'' = writes d @ (ws1 @ ws2)" using w1 w2 by simp
  have c: "distinct (ws1 @ ws2)" using d1 d2 disj by auto
  have e: "nodes d'' r = nodes d r" if "r \<notin> set (ws1 @ ws2)" for r
    using that u1[of r] u2[of r] by simp
  have f: "r \<in> T \<and> shouldSkipNode up r d = Some False \<and>
            (\<exists>v. nodeValue (nodes d r) = Some v \<and> contains_phrase v \<and>
                 nodeValue (nodes d'' r) = Some (rewrite up v))" if "r \<in> set (ws1 @ ws2)" for r
  proof (cases "r \<in> set ws1")
    case True
    then have "nodes d'' r = nodes d' r" using disj u2 by blast
    then show ?thesis using c1[OF True] by simp
  next
    case False
    then have r2: "r \<in> set ws2" using that by simp
    have "nodes d' r = nodes d r" using False u1 by blast
    moreover have "shouldSkipNode up r d' = shouldSkipNode up r d"
      using shouldSkipNode_structure[OF s1] by simp
    ultimately show ?thesis using c2[OF r2] by simp
  qed
  show ?thesis unfolding rewritten_def using a b c e f by blast
qed

lemma rewrites_set_nodeValue:
  assumes "shouldSkipNode up t d = Some False" "nodeValue (nodes d t) = Some v"
    "contains_phrase v" "t \<in> T"
  shows "rewritten up T d (set_nodeValue t (rewrite up v) d)"
proof -
  let ?d' = "set_nodeValue t (rewrite up v) d"
  have "writes ?d' = writes d @ [t]" by (simp add: set_nodeValue_def)
  moreover have "distinct [t]" by simp
  moreover have "\<forall>r. r \<notin> set [t] \<longrightarrow> nodes ?d' r = nodes d r" by (simp add: set_nodeValue_def)
  moreover have "\<forall>r. r \<in> set [t] \<longrightarrow> r \<in> T \<and> shouldSkipNode up r d = Some False \<and>
            (\<exists>v. nodeValue (nodes d r) = Some v \<and> contains_phrase v \<and>
                 nodeValue (nodes ?d' r) = Some (rewrite up v))"
    using assms by (simp add: set_nodeValue_def)
  ultimately show ?thesis
    unfolding rewritten_def using same_structure_set_nodeValue by blast
qed

lemma checkAndReplaceInTextNode_cases:
  assumes "checkAndReplaceInTextNode up t d = Some out"
  obtains (skipped) "shouldSkipNode up t d = Some True" "out = Normal d"
  | (fault) "shouldSkipNode up t d = Some False" "nodeValue (nodes d t) = None"
      "out = Fault TypeError d"
  | (same) v where "shouldSkipNode up t d = Some False" "nodeValue (nodes d t) = Some v"
      "\<not> contains_phrase v" "out = Normal d"
  | (written) v where "shouldSkipNode up t d = Some False" "nodeValue (nodes d t) = Some v"
      "contains_phrase v" "out = Normal (set_nodeValue t (rewrite up v) d)"
  using assms unfolding checkAndReplaceInTextNode_def
  by (auto simp: Let_def rewrite_changes_iff split: option.splits bool.splits if_splits)

lemma checkAndReplaceInTextNode_rewritten:
  assumes "checkAndReplaceInTextNode up t d = Some out" "t \<in> T"
  shows "rewritten up T d (dom_of out)"
  using assms(1)
proof (cases rule: checkAndReplaceInTextNode_cases)
  case (written v)
  then show ?thesis using rewrites_set_nodeValue assms(2) by simp
qed (simp_all add: rewritten_refl)

lemma forEach_rule:
  assumes "forEach f xs d = Some out" and "I d"
    and "\<And>d. I d \<Longrightarrow> P (Normal d)"
    and "\<And>x d out. x \<in> set xs \<Longrightarrow> I d \<Longrightarrow> f x d = Some out \<Longrightarrow>
           P out \<and> (\<forall>d'. out = Normal d' \<longrightarrow> I d')"
  shows "P out"
  using assms
proof (induction xs arbitrary: d)
  case Nil
  then show ?case by auto
next
  case (Cons x xs)
  from Cons.prems(1) obtain o1 where o1: "f x d = Some o1"
    by (auto split: option.splits)
  have step: "P o1 \<and> (\<forall>d'. o1 = Normal d' \<longrightarrow> I d')"
    using Cons.prems(4)[of x d o1] Cons.prems(2) o1 by simp
  show ?case
  proof (cases o1)
    case (Normal d1)
    then have fe: "forEach f xs d1 = Some out" using Cons.prems(1) o1 by simp
    have i1: "I d1" using step Normal by simp
    show ?thesis
      by (rule Cons.IH[OF fe i1 Cons.prems(3)]) (use Cons.prems(4) in auto)
  next
    case (Fault e d1)
    then have "out = o1" using Cons.prems(1) o1 by simp
    then show ?thesis using step by simp
  qed
qed


lemma forEach_rewritten:
  assumes "forEach f xs d = Some out"
    and "\<And>x d' out. x \<in> set xs \<Longrightarrow> rewritten up T d d' \<Longrightarrow> f x d' = Some out \<Longrightarrow>
           rewritten up T d' (dom_of out)"
  shows "rewritten up T d (dom_of out)"
proof (rule forEach_rule[where I = "rewritten up T d" and P = "\<lambda>out. rewritten up T d (dom_of out)",
      OF assms(1)])
  show "rewritten up T d d" by (rule rewritten_refl)
next
  fix d' assume "rewritten up T d d'"
  then show "rewritten up T d (dom_of (Normal d'))" by simp
next
  fix x d' out
  assume "x \<in> set xs" "rewritten up T d d'" "f x d' = Some out"
  then have "rewritten up T d (dom_of out)"
    using assms(2) rewritten_trans by blast
  then show "rewritten up T d (dom_of out) \<and> (\<forall>d''. out = Normal d'' \<longrightarrow> rewritten up T d d'')"
    by auto
qed

lemma text_nodes_structure: "same_structure d d' \<Longrightarrow> text_nodes d' = text_nodes d"
  by (simp add: text_nodes_def same_structureD)

lemma rewritten_structure: "rewritten up T d d' \<Longrightarrow> same_structure d d'"
  by (simp add: rewritten_def)

lemma processNodes_rewritten:
  assumes "processNodes up rootNode d = Some out" "text_nodes d \<subseteq> T"
  shows "rewritten up T d (dom_of out)"
proof (cases rootNode)
  case None
  then have "out = Normal d" using assms(1) by (auto simp: processNodes_def)
  then show ?thesis by (simp add: rewritten_refl)
next
  case (Some r)
  show ?thesis
  proof (cases "nodeType (nodes d r) = ELEMENT_NODE \<and>
             (toUpperCase up (tagName (nodes d r)) \<in> set EXCLUDED_TAGS \<or>
              isContentEditable (nodes d r))")
    case True
    then have "out = Normal d" using assms(1) Some by (simp add: processNodes_def)
    then show ?thesis by (simp add: rewritten_refl)
  next
    case False
    then obtain ns where ns: "treeWalker_collect d (childNodes (nodes d r)) [] = Some ns"
      and fe: "forEach (checkAndReplaceInTextNode up) ns d = Some out"
      using assms(1) Some by (auto simp: processNodes_def split: option.splits)
    have "set ns \<subseteq> T" using treeWalker_collect_text[OF ns] assms(2) by (auto simp: text_nodes_def)
    then show ?thesis
      using forEach_rewritten[OF fe, of up T] checkAndReplaceInTextNode_rewritten by blast
  qed
qed

lemma observer_record_rewritten:
  assumes "observer_record up m d = Some out" "text_nodes d \<subseteq> T" "targets [m] \<subseteq> T"
  shows "rewritten up T d (dom_of out)"
proof (cases "type m = childList")
  case True
  then have fe: "forEach (\<lambda>newNode. processNodes up (Some newNode)) (addedNodes m) d = Some out"
    using assms(1) by (simp add: observer_record_def)
  have "rewritten up T d' (dom_of out')"
    if "rewritten up T d d'" "processNodes up (Some x) d' = Some out'" for x d' out'
  proof -
    have "text_nodes d' \<subseteq> T" using that(1) assms(2) text_nodes_structure rewritten_structure by blast
    then show ?thesis using processNodes_rewritten that(2) by blast
  qed
  then show ?thesis using forEach_rewritten[OF fe, of up T] by blast
next
  case False
  show ?thesis
  proof (cases "type m = characterData")
    case True
    then have "target m \<in> T" using assms(3) by (auto simp: targets_def)
    then show ?thesis
      using assms(1) True checkAndReplaceInTextNode_rewritten by (simp add: observer_record_def)
  next
    case False
    then have "out = Normal d"
      using assms(1) \<open>type m \<noteq> childList\<close> by (auto simp: observer_record_def)
    then show ?thesis by (simp add: rewritten_refl)
  qed
qed

lemma observer_rewritten:
  assumes "observer up ms d = Some out" "text_nodes d \<subseteq> T" "targets ms \<subseteq> T"
  shows "rewritten up T d (dom_of out)"
proof -
  have fe: "forEach (observer_record up) ms d = Some out" using assms(1) by (simp add: observer_def)
  have "rewritten up T d' (dom_of out')"
    if "m \<in> set ms" "rewritten up T d d'" "observer_record up m d' = Some out'" for m d' out'
  proof -
    have "text_nodes d' \<subseteq> T" using that(2) assms(2) text_nodes_structure rewritten_structure by blast
    moreover have "targets [m] \<subseteq> T" using that(1) assms(3) by (auto simp: targets_def)
    ultimately show ?thesis using observer_record_rewritten that(3) by blast
  qed
  then show ?thesis using forEach_rewritten[OF fe, of up T] by blast
qed

subsection \<open>The filter\<close>

lemma shouldSkipNode_loop_None: "shouldSkipNode_loop up d None = Some False"
  by (simp add: shouldSkipNode_loop.simps)

lemma shouldSkipNode_loop_Some:
  "shouldSkipNode_loop up d (Some e) =
     (if nodeType (nodes d e) = ELEMENT_NODE then
        (if excluded up (nodes d e) then Some True
         else shouldSkipNode_loop up d (parentNode (nodes d e)))
      else Some False)"
  by (subst shouldSkipNode_loop.simps) (simp add: excluded_def)

lemma shouldSkipNode_loop_returns:
  "chain_ends d cur \<Longrightarrow> \<exists>b. shouldSkipNode_loop up d cur = Some b"
proof (induction rule: chain_ends.induct)
  case top
  show ?case using shouldSkipNode_loop_None by blast
next
  case (link e)
  then show ?case by (auto simp: shouldSkipNode_loop_Some)
qed

lemma shouldSkipNode_loop_cycle_aux:
  assumes "shouldSkipNode_loop up d cur = Some b" "cur = Some e"
    "nodeType (nodes d e) = ELEMENT_NODE" "\<not> excluded up (nodes d e)"
    "parentNode (nodes d e) = Some e"
  shows False
  using assms
proof (induction rule: shouldSkipNode_loop.raw_induct[rotated 1, consumes 1])
  case (1 loop up d cur b)
  have "loop up d (Some e) = Some b"
    using 1(2-6) by (simp add: excluded_def)
  then show ?case using 1(1)[of up d "Some e" b] 1(4-6) by simp
qed

lemma shouldSkipNode_loop_cycle:
  assumes "nodeType (nodes d e) = ELEMENT_NODE" "\<not> excluded up (nodes d e)"
    "parentNode (nodes d e) = Some e"
  shows "shouldSkipNode_loop up d (Some e) = None"
  using shouldSkipNode_loop_cycle_aux[OF _ refl assms] by (cases "shouldSkipNode_loop up d (Some e)") auto

lemma element_ancestor_element: "element_ancestor d n a \<Longrightarrow> nodeType (nodes d a) = ELEMENT_NODE"
  by (induction rule: element_ancestor.induct) auto

lemma shouldSkipNode_loop_ancestor:
  "element_ancestor d n a \<Longrightarrow> shouldSkipNode_loop up d (Some a) = Some True \<Longrightarrow>
   shouldSkipNode_loop up d (parentNode (nodes d n)) = Some True"
proof (induction rule: element_ancestor.induct)
  case (parent n a)
  then show ?case by simp
next
  case (grand n a b)
  have "shouldSkipNode_loop up d (Some a) = Some True"
    using grand.hyps(2) grand.prems element_ancestor_element[OF grand.hyps(1)]
    by (simp add: shouldSkipNode_loop_Some)
  then show ?case using grand.IH by simp
qed

lemma shouldSkipNode_excluded_ancestor:
  assumes "element_ancestor d n a" "excluded up (nodes d a)"
  shows "shouldSkipNode up n d = Some True"
proof -
  have "shouldSkipNode_loop up d (Some a) = Some True"
    using assms element_ancestor_element by (simp add: shouldSkipNode_loop_Some)
  then show ?thesis using shouldSkipNode_loop_ancestor[OF assms(1)] by (simp add: shouldSkipNode_def)
qed

lemma rewritten_skipped:
  assumes "rewritten up T d d'" "shouldSkipNode up t d = Some True"
  shows "nodes d' t = nodes d t \<and> (\<exists>ws. writes d' = writes d @ ws \<and> t \<notin> set ws)"
proof -
  from assms(1) obtain ws where w: "writes d' = writes d @ ws"
    and u: "\<And>r. r \<notin> set ws \<Longrightarrow> nodes d' r = nodes d r"
    and c: "\<And>r. r \<in> set ws \<Longrightarrow> shouldSkipNode up r d = Some False"
    unfolding rewritten_def by blast
  have "t \<notin> set ws" using c[of t] assms(2) by auto
  then show ?thesis using w u by blast
qed





subsection \<open>The enumeration\<close>

lemma treeWalker_collect_Nil: "treeWalker_collect d [] acc = Some acc"
  by (simp add: treeWalker_collect.simps)

lemma treeWalker_collect_Cons:
  "treeWalker_collect d (n # rest) acc =
     treeWalker_collect d (childNodes (nodes d n) @ rest)
       (if nodeType (nodes d n) = TEXT_NODE then acc @ [n] else acc)"
  by (subst treeWalker_collect.simps) simp

lemma treeWalker_collect_tree:
  "shape d t \<Longrightarrow>
   treeWalker_collect d (root t # rest) acc =
     treeWalker_collect d rest
       (acc @ filter (\<lambda>n. nodeType (nodes d n) = TEXT_NODE) (preorder t))"
proof (induction t arbitrary: rest acc)
  case (Tree r ts)
  have forest: "treeWalker_collect d (map root us @ rest) acc' =
      treeWalker_collect d rest
        (acc' @ filter (\<lambda>n. nodeType (nodes d n) = TEXT_NODE) (concat (map preorder us)))"
    if "set us \<subseteq> set ts" "list_all (shape d) us" for us acc'
    using that
  proof (induction us arbitrary: acc')
    case Nil
    then show ?case by simp
  next
    case (Cons u us)
    have "treeWalker_collect d (root u # map root us @ rest) acc' =
        treeWalker_collect d (map root us @ rest)
          (acc' @ filter (\<lambda>n. nodeType (nodes d n) = TEXT_NODE) (preorder u))"
      using Tree.IH[of u] Cons.prems by simp
    then show ?case using Cons.IH Cons.prems by simp
  qed
  have "treeWalker_collect d (root (Tree r ts) # rest) acc =
      treeWalker_collect d (map root ts @ rest)
        (if nodeType (nodes d r) = TEXT_NODE then acc @ [r] else acc)"
    using Tree.prems by (simp add: treeWalker_collect_Cons)
  also have "\<dots> = treeWalker_collect d rest
      ((if nodeType (nodes d r) = TEXT_NODE then acc @ [r] else acc) @
        filter (\<lambda>n. nodeType (nodes d n) = TEXT_NODE) (concat (map preorder ts)))"
    using forest[of ts] Tree.prems by simp
  finally show ?case by simp
qed

lemma treeWalker_collect_shape:
  assumes "shape d t"
  shows "treeWalker_collect d (childNodes (nodes d (root t))) [] = Some (text_descendants d t)"
proof -
  obtain r ts where t: "t = Tree r ts" by (cases t)
  have "treeWalker_collect d (map root us @ []) acc' =
      treeWalker_collect d []
        (acc' @ filter (\<lambda>n. nodeType (nodes d n) = TEXT_NODE) (concat (map preorder us)))"
    if "list_all (shape d) us" for us acc'
    using that
  proof (induction us arbitrary: acc')
    case Nil
    then show ?case by simp
  next
    case (Cons u us)
    then show ?case using treeWalker_collect_tree[of d u "map root us @ []"] by simp
  qed
  from this[of ts "[]"] show ?thesis
    using assms t by (simp add: text_descendants_def treeWalker_collect_Nil)
qed




subsection \<open>The sweep returns and rewrites every eligible text descendant\<close>

text \<open>
  On a finite subtree whose text nodes have finite parent chains the sweep returns, and
  when it returns normally every text descendant that is not excluded holds its value
  rewritten.
\<close>

lemma chain_ends_structure:
  assumes "chain_ends d p" "same_structure d d'"
  shows "chain_ends d' p"
  using assms
proof (induction rule: chain_ends.induct)
  case top
  show ?case by (rule chain_ends.top)
next
  case (link e)
  then show ?case using same_structureD(4)[OF link.prems, of e] chain_ends.link[of d' e] by simp
qed

lemma shouldSkipNode_returns:
  "chain_ends d (parentNode (nodes d n)) \<Longrightarrow> \<exists>b. shouldSkipNode up n d = Some b"
  using shouldSkipNode_loop_returns by (simp add: shouldSkipNode_def)

lemma checkAndReplaceInTextNode_returns:
  assumes "chain_ends d (parentNode (nodes d n))"
  shows "\<exists>out. checkAndReplaceInTextNode up n d = Some out"
proof -
  obtain b where "shouldSkipNode up n d = Some b" using shouldSkipNode_returns[OF assms] by blast
  then show ?thesis
    by (cases b; cases "nodeValue (nodes d n)") (simp_all add: checkAndReplaceInTextNode_def Let_def)
qed

lemma forEach_check_returns:
  assumes "\<forall>x\<in>set xs. chain_ends d (parentNode (nodes d x))"
  shows "\<exists>out. forEach (checkAndReplaceInTextNode up) xs d = Some out"
  using assms
proof (induction xs arbitrary: d)
  case Nil
  then show ?case by simp
next
  case (Cons x xs)
  obtain o1 where o1: "checkAndReplaceInTextNode up x d = Some o1"
    using checkAndReplaceInTextNode_returns[of d x up] Cons.prems by auto
  show ?case
  proof (cases o1)
    case (Normal d1)
    have st: "same_structure d d1"
      using checkAndReplaceInTextNode_rewritten[OF o1, of UNIV] Normal rewritten_structure by fastforce
    have "\<forall>y\<in>set xs. chain_ends d1 (parentNode (nodes d1 y))"
      using Cons.prems chain_ends_structure[OF _ st] same_structureD(4)[OF st] by simp
    then show ?thesis using Cons.IH[of d1] o1 Normal by simp
  next
    case (Fault e d1)
    then show ?thesis using o1 by simp
  qed
qed

lemma forEach_check_complete:
  assumes "forEach (checkAndReplaceInTextNode up) xs d = Some (Normal d')"
    and "x \<in> set xs" and "shouldSkipNode up x d = Some False"
    and "nodeValue (nodes d x) = Some v"
  shows "nodeValue (nodes d' x) = Some (rewrite up v)"
  using assms
proof (induction xs arbitrary: d v)
  case Nil
  then show ?case by simp
next
  case (Cons y ys)
  from Cons.prems(1) obtain d1 where c: "checkAndReplaceInTextNode up y d = Some (Normal d1)"
    and fe: "forEach (checkAndReplaceInTextNode up) ys d1 = Some (Normal d')"
    by (auto split: option.splits outcome.splits)
  have r1: "rewritten up UNIV d d1" using checkAndReplaceInTextNode_rewritten[OF c, of UNIV] by simp
  have sk1: "shouldSkipNode up x d1 = Some False"
    using Cons.prems(3) shouldSkipNode_structure[OF rewritten_structure[OF r1]] by simp
  have v1: "nodeValue (nodes d1 x) = Some v \<or> nodeValue (nodes d1 x) = Some (rewrite up v)"
    using c Cons.prems(4)
    by (cases rule: checkAndReplaceInTextNode_cases) (auto simp: set_nodeValue_def)
  have vy: "nodeValue (nodes d1 x) = Some (rewrite up v)" if "x = y"
    using c Cons.prems(3,4) that
    by (cases rule: checkAndReplaceInTextNode_cases)
       (auto simp: set_nodeValue_def rewrite_no_phrase)
  show ?case
  proof (cases "x \<in> set ys")
    case True
    from v1 show ?thesis
    proof
      assume "nodeValue (nodes d1 x) = Some v"
      then show ?thesis using Cons.IH[OF fe True sk1] by simp
    next
      assume "nodeValue (nodes d1 x) = Some (rewrite up v)"
      then show ?thesis using Cons.IH[OF fe True sk1] by (simp add: rewrite_rewrite)
    qed
  next
    case False
    then have xy: "x = y" using Cons.prems(2) by simp
    have r2: "rewritten up UNIV d1 d'"
      using forEach_rewritten[OF fe, of up UNIV] checkAndReplaceInTextNode_rewritten by fastforce
    from r2 obtain ws where
      u: "\<And>r. r \<notin> set ws \<Longrightarrow> nodes d' r = nodes d1 r"
      and w: "\<And>r. r \<in> set ws \<Longrightarrow> \<exists>v. nodeValue (nodes d1 r) = Some v \<and> contains_phrase v"
      unfolding rewritten_def by blast
    have "x \<notin> set ws"
    proof
      assume "x \<in> set ws"
      then have "contains_phrase (rewrite up v)" using w[of x] vy[OF xy] by auto
      then show False using no_phrase_rewrite by blast
    qed
    then show ?thesis using u vy[OF xy] by simp
  qed
qed

lemma sweep_returns:
  assumes "shape d t" "root t = rootNode"
    and "\<forall>x\<in>set (text_descendants d t). chain_ends d (parentNode (nodes d x))"
  shows "\<exists>out. processNodes up (Some rootNode) d = Some out"
proof (cases "nodeType (nodes d rootNode) = ELEMENT_NODE \<and> excluded up (nodes d rootNode)")
  case True
  then show ?thesis by (auto simp: processNodes_def excluded_def)
next
  case False
  have "treeWalker_collect d (childNodes (nodes d rootNode)) [] = Some (text_descendants d t)"
    using treeWalker_collect_shape[OF assms(1)] assms(2) by simp
  then have "processNodes up (Some rootNode) d =
      forEach (checkAndReplaceInTextNode up) (text_descendants d t) d"
    using False by (auto simp: processNodes_def excluded_def)
  then show ?thesis using forEach_check_returns[OF assms(3), of up] by simp
qed

lemma sweep_rewrites_descendants:
  assumes "shape d t" "root t = rootNode"
    and "\<not> (nodeType (nodes d rootNode) = ELEMENT_NODE \<and> excluded up (nodes d rootNode))"
    and "processNodes up (Some rootNode) d = Some (Normal d')"
    and "x \<in> set (text_descendants d t)" "shouldSkipNode up x d = Some False"
    and "nodeValue (nodes d x) = Some v"
  shows "nodeValue (nodes d' x) = Some (rewrite up v)"
proof -
  have "treeWalker_collect d (childNodes (nodes d rootNode)) [] = Some (text_descendants d t)"
    using treeWalker_collect_shape[OF assms(1)] assms(2) by simp
  then have "forEach (checkAndReplaceInTextNode up) (text_descendants d t) d = Some (Normal d')"
    using assms(3,4) by (auto simp: processNodes_def excluded_def)
  then show ?thesis using forEach_check_complete assms(5-7) by blast
qed

subsection \<open>Added text nodes\<close>

lemma processNodes_leaf:
  assumes "childNodes (nodes d n) = []" "nodeType (nodes d n) \<noteq> ELEMENT_NODE"
  shows "processNodes up (Some n) d = Some (Normal d)"
  using assms by (simp add: processNodes_def treeWalker_collect_Nil)

subsection \<open>Faults\<close>







section \<open>The example document\<close>

lemmas page_simps = page_def element_node_def text_node_def blank_node_def

lemma node_simps:
  "nodeType (element_node tag ed p cs) = ELEMENT_NODE"
  "parentNode (element_node tag ed p cs) = p"
  "childNodes (element_node tag ed p cs) = cs"
  "nodeValue (element_node tag ed p cs) = None"
  "nodeType (text_node v p) = TEXT_NODE"
  "parentNode (text_node v p) = p"
  "childNodes (text_node v p) = []"
  "nodeValue (text_node v p) = Some (js v)"
  by (simp_all add: element_node_def text_node_def)

lemma page_collect: "treeWalker_collect page (childNodes (nodes page 0)) [] = Some [2, 4, 5, 7, 11, 13]"
  by (simp add: page_simps treeWalker_collect_Cons treeWalker_collect_Nil)



lemma excluded_simps:
  "excluded (\<lambda>s. s) (element_node ''BODY'' False p cs) = False"
  "excluded (\<lambda>s. s) (element_node ''P'' False p cs) = False"
  "excluded (\<lambda>s. s) (element_node ''B'' False p cs) = False"
  "excluded (\<lambda>s. s) (element_node ''SPAN'' False p cs) = False"
  "excluded (\<lambda>s. s) (element_node ''EM'' False p cs) = False"
  "excluded (\<lambda>s. s) (element_node ''SCRIPT'' False p cs) = True"
  "excluded (\<lambda>s. s) (element_node ''code'' False p cs) = True"
  "excluded (\<lambda>s. s) (element_node ''DIV'' True p cs) = True"
  by (simp_all add: excluded_def element_node_def toUpperCase_def EXCLUDED_TAGS_def js_def ascii_upper_def)

lemma page_skip:
  "shouldSkipNode (\<lambda>s. s) 2 page = Some False"
  "shouldSkipNode (\<lambda>s. s) 4 page = Some False"
  "shouldSkipNode (\<lambda>s. s) 5 page = Some False"
  "shouldSkipNode (\<lambda>s. s) 7 page = Some True"
  "shouldSkipNode (\<lambda>s. s) 11 page = Some True"
  "shouldSkipNode (\<lambda>s. s) 13 page = Some True"
  by (simp_all add: shouldSkipNode_def shouldSkipNode_loop_Some shouldSkipNode_loop_None page_def
      excluded_simps node_simps)

lemma checkAndReplaceInTextNode_skipped:
  "shouldSkipNode up t d = Some True \<Longrightarrow> checkAndReplaceInTextNode up t d = Some (Normal d)"
  by (simp add: checkAndReplaceInTextNode_def)

lemma checkAndReplaceInTextNode_same:
  "shouldSkipNode up t d = Some False \<Longrightarrow> nodeValue (nodes d t) = Some v \<Longrightarrow>
   rewrite up v = v \<Longrightarrow> checkAndReplaceInTextNode up t d = Some (Normal d)"
  by (simp add: checkAndReplaceInTextNode_def)

lemma checkAndReplaceInTextNode_written:
  "shouldSkipNode up t d = Some False \<Longrightarrow> nodeValue (nodes d t) = Some v \<Longrightarrow>
   rewrite up v \<noteq> v \<Longrightarrow>
   checkAndReplaceInTextNode up t d = Some (Normal (set_nodeValue t (rewrite up v) d))"
  by (simp add: checkAndReplaceInTextNode_def)

lemma nodes_set_nodeValue_other: "r \<noteq> t \<Longrightarrow> nodes (set_nodeValue t v d) r = nodes d r"
  by (simp add: set_nodeValue_def)

lemma page_rewrite:
  "rewrite (\<lambda>s. s) (js ''The '') = js ''The ''"
  "rewrite (\<lambda>s. s) (js '' is large.'') = js '' is large.''"
  "rewrite (\<lambda>s. s) (js ''Gulf of America'') = TEXT_TO_REPLACE_WITH"
  "TEXT_TO_REPLACE_WITH \<noteq> js ''Gulf of America''"
  by (simp_all add: js_def rewrite_Cons rewrite_Nil SEARCH_REGEX_eq TEXT_TO_REPLACE_WITH_eq
      Canonicalize_eq_ascii ascii_upper_def)

lemma page_values:
  "nodeValue (nodes page 2) = Some (js ''The '')"
  "nodeValue (nodes page 4) = Some (js ''Gulf of America'')"
  "nodeValue (nodes page 5) = Some (js '' is large.'')"
  by (simp_all add: page_def node_simps)

lemma page_sweep:
  "processNodes (\<lambda>s. s) (Some 0) page = Some (Normal (set_nodeValue 4 TEXT_TO_REPLACE_WITH page))"
proof -
  let ?up = "\<lambda>s::jsstring. s"
  let ?p = "set_nodeValue 4 TEXT_TO_REPLACE_WITH page"
  have st: "same_structure page ?p" by (rule same_structure_set_nodeValue)
  have c2: "checkAndReplaceInTextNode ?up 2 page = Some (Normal page)"
    using checkAndReplaceInTextNode_same[OF page_skip(1) page_values(1) page_rewrite(1)] .
  have c4: "checkAndReplaceInTextNode ?up 4 page = Some (Normal ?p)"
    using checkAndReplaceInTextNode_written[OF page_skip(2) page_values(2)] page_rewrite(3,4)
    by simp
  have "nodeValue (nodes ?p 5) = Some (js '' is large.'')"
    using page_values(3) by (simp add: nodes_set_nodeValue_other)
  then have c5: "checkAndReplaceInTextNode ?up 5 ?p = Some (Normal ?p)"
    using checkAndReplaceInTextNode_same[of ?up 5 ?p] page_skip(3) page_rewrite(2)
      shouldSkipNode_structure[OF st] by simp
  have c7: "checkAndReplaceInTextNode ?up 7 ?p = Some (Normal ?p)"
    and c11: "checkAndReplaceInTextNode ?up 11 ?p = Some (Normal ?p)"
    and c13: "checkAndReplaceInTextNode ?up 13 ?p = Some (Normal ?p)"
    using page_skip(4-6) shouldSkipNode_structure[OF st]
    by (simp_all add: checkAndReplaceInTextNode_skipped)
  have "processNodes ?up (Some 0) page =
      forEach (checkAndReplaceInTextNode ?up) [2, 4, 5, 7, 11, 13] page"
    using page_collect excluded_simps(1)[of None "[1, 6, 8, 12]"]
    by (simp add: processNodes_def page_def excluded_def)
  also have "\<dots> = Some (Normal ?p)"
    by (simp add: c2 c4 c5 c7 c11 c13)
  finally show ?thesis .
qed

lemma page_check_4:
  "checkAndReplaceInTextNode (\<lambda>s. s) 4 page =
     Some (Normal (set_nodeValue 4 TEXT_TO_REPLACE_WITH page))"
  using checkAndReplaceInTextNode_written[OF page_skip(2) page_values(2)] page_rewrite(3,4)
  by simp

lemma page_subtree_3:
  "processNodes (\<lambda>s. s) (Some 3) page = Some (Normal (set_nodeValue 4 TEXT_TO_REPLACE_WITH page))"
proof -
  have "treeWalker_collect page (childNodes (nodes page 3)) [] = Some [4]"
    by (simp add: page_def node_simps treeWalker_collect_Cons treeWalker_collect_Nil)
  then show ?thesis
    using excluded_simps(3)[of "Some 1" "[4]"] page_check_4
    by (simp add: processNodes_def page_def excluded_def)
qed


lemma page_parents:
  "parentNode (nodes page 4) = Some 3" "parentNode (nodes page 3) = Some 1"
  "parentNode (nodes page 1) = Some 0" "parentNode (nodes page 0) = None"
  by (simp_all add: page_def node_simps)

section \<open>The claims about the document operations\<close>

text \<open>
  C2. Let a text unit have an ancestor element, reached along its parent chain, whose tag
  is in the exclusion set when put in upper case, or which is editable. Then the filter
  returns "skip" for the unit, and it does so at the first such ancestor, whatever lies
  above it; the handler of a text change leaves the state as it is; and after a sweep
  from any root, or after the callback on any batch of change records, the unit is the
  same node as before and is not among the nodes written.
\<close>

theorem excluded_never_rewritten:
  assumes "element_ancestor d textNode a" and "excluded up (nodes d a)"
  shows "shouldSkipNode up textNode d = Some True \<and>
    checkAndReplaceInTextNode up textNode d = Some (Normal d) \<and>
    (\<forall>rootNode out. processNodes up rootNode d = Some out \<longrightarrow>
       nodes (dom_of out) textNode = nodes d textNode \<and>
       (\<exists>ws. writes (dom_of out) = writes d @ ws \<and> textNode \<notin> set ws)) \<and>
    (\<forall>mutationsList out. observer up mutationsList d = Some out \<longrightarrow>
       nodes (dom_of out) textNode = nodes d textNode \<and>
       (\<exists>ws. writes (dom_of out) = writes d @ ws \<and> textNode \<notin> set ws))"
proof -
  have s: "shouldSkipNode up textNode d = Some True"
    using shouldSkipNode_excluded_ancestor[OF assms] .
  have c: "checkAndReplaceInTextNode up textNode d = Some (Normal d)"
    using s by (simp add: checkAndReplaceInTextNode_def)
  have p: "nodes (dom_of out) textNode = nodes d textNode \<and>
       (\<exists>ws. writes (dom_of out) = writes d @ ws \<and> textNode \<notin> set ws)"
    if "processNodes up rootNode d = Some out" for rootNode out
    using processNodes_rewritten[OF that, of UNIV] rewritten_skipped[OF _ s] by simp
  have ob: "nodes (dom_of out) textNode = nodes d textNode \<and>
       (\<exists>ws. writes (dom_of out) = writes d @ ws \<and> textNode \<notin> set ws)"
    if "observer up ms d = Some out" for ms out
    using observer_rewritten[OF that, of UNIV] rewritten_skipped[OF _ s] by simp
  show ?thesis using s c p ob by blast
qed

theorem excluded_never_rewritten_witness:
  "element_ancestor page 11 8 \<and> excluded (\<lambda>s. s) (nodes page 8) \<and>
   shouldSkipNode (\<lambda>s. s) 11 page = Some True \<and>
   checkAndReplaceInTextNode (\<lambda>s. s) 11 page = Some (Normal page) \<and>
   processNodes (\<lambda>s. s) (Some 0) page = Some (Normal (set_nodeValue 4 TEXT_TO_REPLACE_WITH page)) \<and>
   observer (\<lambda>s. s) [\<lparr>type = childList, addedNodes = [0], target = 0\<rparr>] page =
     Some (Normal (set_nodeValue 4 TEXT_TO_REPLACE_WITH page)) \<and>
   nodes (set_nodeValue 4 TEXT_TO_REPLACE_WITH page) 11 = nodes page 11 \<and>
   writes (set_nodeValue 4 TEXT_TO_REPLACE_WITH page) = writes page @ [4]"
proof -
  have "element_ancestor page 11 10"
    by (rule element_ancestor.parent) (simp_all add: page_def node_simps)
  then have "element_ancestor page 11 9"
    by (rule element_ancestor.grand) (simp_all add: page_def node_simps)
  then have ea: "element_ancestor page 11 8"
    by (rule element_ancestor.grand) (simp_all add: page_def node_simps)
  have ex: "excluded (\<lambda>s. s) (nodes page 8)"
    by (simp add: page_def excluded_simps)
  note t = excluded_never_rewritten[OF ea ex]
  have ob: "observer (\<lambda>s. s) [\<lparr>type = childList, addedNodes = [0], target = 0\<rparr>] page =
      Some (Normal (set_nodeValue 4 TEXT_TO_REPLACE_WITH page))"
    using page_sweep by (simp add: observer_def observer_record_def)
  have "nodes (dom_of (Normal (set_nodeValue 4 TEXT_TO_REPLACE_WITH page))) 11 = nodes page 11"
    using t page_sweep by blast
  moreover have "nodes (dom_of (Normal (set_nodeValue 4 TEXT_TO_REPLACE_WITH page))) 11 =
      nodes page 11"
    using t ob by blast
  moreover have "writes (set_nodeValue 4 TEXT_TO_REPLACE_WITH page) = writes page @ [4]"
    by (simp add: set_nodeValue_def)
  ultimately show ?thesis using ea ex t page_sweep ob by simp
qed

text \<open>
  C4. Whenever the handler of a node returns, either the state is the one it started from,
  or the node was eligible, its value \<open>v\<close> differs from the rewritten value and the one
  assignment of the rewritten value was made. If the rewritten value equals the value,
  nothing is written and the state is unchanged. And running the handler again on the
  state it returned writes nothing: a change record caused by the write settles at once.
\<close>

theorem write_only_when_changed:
  assumes "checkAndReplaceInTextNode up textNode d = Some out"
  shows "(dom_of out = d \<or>
      (\<exists>v. shouldSkipNode up textNode d = Some False \<and> nodeValue (nodes d textNode) = Some v \<and>
           rewrite up v \<noteq> v \<and> out = Normal (set_nodeValue textNode (rewrite up v) d))) \<and>
    (\<forall>v. nodeValue (nodes d textNode) = Some v \<and> rewrite up v = v \<longrightarrow> out = Normal d) \<and>
    (\<forall>d'. out = Normal d' \<longrightarrow> checkAndReplaceInTextNode up textNode d' = Some (Normal d'))"
  using assms
proof (cases rule: checkAndReplaceInTextNode_cases)
  case skipped
  then show ?thesis by (simp add: checkAndReplaceInTextNode_def)
next
  case fault
  then show ?thesis by simp
next
  case (same v)
  then show ?thesis by (simp add: checkAndReplaceInTextNode_def rewrite_changes_iff)
next
  case (written v)
  let ?d' = "set_nodeValue textNode (rewrite up v) d"
  have "shouldSkipNode up textNode ?d' = Some False"
    using written(1) shouldSkipNode_structure[OF same_structure_set_nodeValue] by simp
  moreover have "nodeValue (nodes ?d' textNode) = Some (rewrite up v)"
    by (simp add: set_nodeValue_def)
  ultimately have "checkAndReplaceInTextNode up textNode ?d' = Some (Normal ?d')"
    by (simp add: checkAndReplaceInTextNode_def rewrite_rewrite)
  moreover have "rewrite up v \<noteq> v" using written(3) rewrite_changes_iff by blast
  ultimately show ?thesis using written by simp
qed

theorem write_only_when_changed_witness:
  "checkAndReplaceInTextNode (\<lambda>s. s) 4 page =
     Some (Normal (set_nodeValue 4 TEXT_TO_REPLACE_WITH page)) \<and>
   writes (set_nodeValue 4 TEXT_TO_REPLACE_WITH page) = [4] \<and>
   checkAndReplaceInTextNode (\<lambda>s. s) 4 (set_nodeValue 4 TEXT_TO_REPLACE_WITH page) =
     Some (Normal (set_nodeValue 4 TEXT_TO_REPLACE_WITH page))"
proof -
  have "checkAndReplaceInTextNode (\<lambda>s. s) 4 (set_nodeValue 4 TEXT_TO_REPLACE_WITH page) =
      Some (Normal (set_nodeValue 4 TEXT_TO_REPLACE_WITH page))"
    using write_only_when_changed[OF page_check_4] by simp
  moreover have "writes (set_nodeValue 4 TEXT_TO_REPLACE_WITH page) = [4]"
    by (simp add: set_nodeValue_def page_def)
  ultimately show ?thesis using page_check_4 by simp
qed

text \<open>
  C5. An added node that is itself a text node: the walker never returns its root, so the
  sweep from the text node collects nothing. In the example document the text node 4 is
  eligible and holds the phrase; the callback on the record of its addition leaves the
  document unchanged, while the callback on the addition of the element around it
  rewrites the same text. (Lemma \<open>processNodes_leaf\<close> is the general fact; lemmas
  \<open>sweep_returns\<close> and \<open>sweep_rewrites_descendants\<close> say what the sweep does
  for the descendants of its root.)
\<close>

theorem added_text_node_not_rewritten:
  "shouldSkipNode (\<lambda>s. s) 4 page = Some False \<and>
   nodeValue (nodes page 4) = Some (js ''Gulf of America'') \<and>
   observer (\<lambda>s. s) [\<lparr>type = childList, addedNodes = [4], target = 3\<rparr>] page =
     Some (Normal page) \<and>
   observer (\<lambda>s. s) [\<lparr>type = childList, addedNodes = [3], target = 1\<rparr>] page =
     Some (Normal (set_nodeValue 4 TEXT_TO_REPLACE_WITH page))"
proof -
  have "processNodes (\<lambda>s. s) (Some 4) page = Some (Normal page)"
    by (rule processNodes_leaf) (simp_all add: page_def node_simps)
  then show ?thesis
    using page_skip(2) page_values(2) page_subtree_3
    by (simp add: observer_def observer_record_def)
qed








text \<open>
  C9. When the parent chain of a node is finite, the filter returns a boolean; when the
  node has no parent, it returns false.
\<close>

theorem shouldSkipNode_terminates:
  "(chain_ends d (parentNode (nodes d textNode)) \<longrightarrow> (\<exists>b. shouldSkipNode up textNode d = Some b)) \<and>
   (parentNode (nodes d textNode) = None \<longrightarrow> shouldSkipNode up textNode d = Some False)"
  using shouldSkipNode_loop_returns[of d "parentNode (nodes d textNode)" up]
  by (auto simp: shouldSkipNode_def shouldSkipNode_loop_None)

theorem shouldSkipNode_terminates_witness:
  "chain_ends page (parentNode (nodes page 4)) \<and>
   (\<exists>b. shouldSkipNode (\<lambda>s. s) 4 page = Some b) \<and>
   parentNode (nodes page 0) = None \<and> shouldSkipNode (\<lambda>s. s) 0 page = Some False"
proof -
  have "chain_ends page (Some 0)"
    using chain_ends.link[of page 0] chain_ends.top page_parents by simp
  then have "chain_ends page (Some 1)"
    using chain_ends.link[of page 1] page_parents by simp
  then have "chain_ends page (Some 3)"
    using chain_ends.link[of page 3] page_parents by simp
  then have c: "chain_ends page (parentNode (nodes page 4))"
    using page_parents by simp
  show ?thesis
    using shouldSkipNode_terminates[of page 4 "\<lambda>s. s"]
      shouldSkipNode_terminates[of page 0 "\<lambda>s. s"] c page_parents by simp
qed

text \<open>
  C10. The sweep from \<open>null\<close> returns at once with the state it was given: no node and
  no record of a write differs.
\<close>

theorem processNodes_null: "processNodes up None d = Some (Normal d)"
  by (simp add: processNodes_def)

theorem processNodes_null_witness: "processNodes (\<lambda>s. s) None page = Some (Normal page)"
  using processNodes_null[of "\<lambda>s. s" page] .

end
